theory Spec2Isabelle
  imports Complex_Main "HOL-Library.Stream"
begin

section \<open>Values, exceptions and the random source\<close>

text \<open>
  The module \<^verbatim>\<open>isolation_forest.py\<close> works on lists of rows of numbers. Python's
  floats and ints are both read as reals here, so every result below is about exact real
  arithmetic: rounding, overflow and NaN are outside the model. Row and column indices
  come from \<^verbatim>\<open>range\<close>, so they are naturals; sizes and depths given by the
  caller are Python ints.

  Every exception the source can raise is a value of \<open>error\<close>, and a function that can
  raise returns \<open>error + 'a\<close> with \<open>Inl\<close> for the exception.
\<close>

datatype error = IndexError | ValueError | ZeroDivisionError | UnboundLocalError | TypeError

text \<open>
  The functions \<^verbatim>\<open>sample\<close>, \<^verbatim>\<open>choice\<close> and \<^verbatim>\<open>random\<close> of Python's
  \<^verbatim>\<open>random\<close> module read a hidden generator. The generator is made explicit as three
  tapes, one per function, and each call takes the head of its tape. What the library
  promises about a draw (a sample is a list of \<open>k\<close> distinct members of \<open>range(n)\<close>, a
  choice is a member of \<open>range(m)\<close>, a random number lies in \<open>[0, 1)\<close>) is stated by the
  predicates \<open>sample_ok\<close> and \<open>rng_ok\<close>, hypotheses of the theorems that need them.
\<close>

record rng =
  samples :: "nat list stream"
  choices :: "nat stream"
  randoms :: "real stream"

definition sample :: "nat \<Rightarrow> int \<Rightarrow> rng \<Rightarrow> error + (nat list \<times> rng)" where
  \<comment> \<open>\<^verbatim>\<open>sample(range(n), k)\<close>: ValueError when \<open>k\<close> is negative or exceeds \<open>n\<close>.\<close>
  "sample n k g =
     (if k < 0 \<or> int n < k then Inl ValueError
      else Inr (shd (samples g), g\<lparr>samples := stl (samples g)\<rparr>))"

definition choice :: "nat \<Rightarrow> rng \<Rightarrow> error + (nat \<times> rng)" where
  \<comment> \<open>\<^verbatim>\<open>choice(range(m))\<close>: IndexError on the empty range.\<close>
  "choice m g =
     (if m = 0 then Inl IndexError
      else Inr (shd (choices g), g\<lparr>choices := stl (choices g)\<rparr>))"

definition random :: "rng \<Rightarrow> real \<times> rng" where
  "random g = (shd (randoms g), g\<lparr>randoms := stl (randoms g)\<rparr>)"

definition rng_ok :: "nat \<Rightarrow> rng \<Rightarrow> bool" where
  \<comment> \<open>Every later \<^verbatim>\<open>choice(range(m))\<close> is below \<open>m\<close>, every \<^verbatim>\<open>random()\<close> in \<open>[0, 1)\<close>.\<close>
  "rng_ok m g \<longleftrightarrow>
     (\<forall>c \<in> sset (choices g). c < m) \<and>
     (\<forall>r \<in> sset (randoms g). 0 \<le> r \<and> r < 1)"


section \<open>Nodes and the node store\<close>

text \<open>
  A \<^verbatim>\<open>Node\<close> object has five fields, four of them \<^verbatim>\<open>None\<close> until a split is
  made. Tree construction keeps nodes in a queue and assigns their fields after their
  parents already point to them, so nodes live in a store: a list of node records whose
  positions are the object references. Creating a node appends to the store. A reference
  held by the queue or by a node is always a position of the store (part of the invariant
  \<open>heap_inv\<close> below), so no read of the store is out of range.
\<close>

record node =
  size_n :: int
  split_feature :: "nat option"
  split_point :: "real option"
  left :: "nat option"
  right :: "nat option"

type_synonym heap = "node list"

definition Node :: "int \<Rightarrow> node" where
  "Node sz = \<lparr>size_n = sz, split_feature = None, split_point = None,
              left = None, right = None\<rparr>"

section \<open>IsolationTree\<close>

definition cell :: "real list list \<Rightarrow> nat \<Rightarrow> nat \<Rightarrow> error + real" where
  \<comment> \<open>\<^verbatim>\<open>X[i][j]\<close> with non-negative indices.\<close>
  "cell X i j =
     (if i < length X \<and> j < length (X ! i) then Inr (X ! i ! j) else Inl IndexError)"

fun column :: "real list list \<Rightarrow> nat \<Rightarrow> nat list \<Rightarrow> error + real list" where
  \<comment> \<open>\<^verbatim>\<open>map(lambda i: X[i][split_feature], idx)\<close>, consumed from the left.\<close>
  "column X j [] = Inr []"
| "column X j (i # idx) =
     (case cell X i j of
        Inl e \<Rightarrow> Inl e
      | Inr v \<Rightarrow> (case column X j idx of Inl e \<Rightarrow> Inl e | Inr vs \<Rightarrow> Inr (v # vs)))"

definition get_split ::
  "real list list \<Rightarrow> nat list \<Rightarrow> nat \<Rightarrow> rng \<Rightarrow> error + (real option \<times> rng)" where
  \<comment> \<open>The last line, \<^verbatim>\<open>random() * (x_max - x_min) + x_min\<close>, is taken over the reals,
      exactly: the rounding of Python's floats, the conversion of large ints to floats,
      \<^verbatim>\<open>inf\<close> and OverflowError are not modelled.\<close>
  "get_split X idx feature g =
     (case column X feature idx of
        Inl e \<Rightarrow> Inl e
      | Inr vs \<Rightarrow>
          let unique = set vs in
          if card unique = 1 then Inr (None, g)
          else if unique = {} then Inl ValueError
          else
            let unique' = unique - {Min unique};
                x_min = Min unique';
                x_max = Max unique';
                (r, g') = random g
            in Inr (Some (r * (x_max - x_min) + x_min), g'))"

fun split_rows ::
  "real list list \<Rightarrow> nat \<Rightarrow> real \<Rightarrow> nat list \<Rightarrow> nat list \<Rightarrow> nat list
     \<Rightarrow> error + (nat list \<times> nat list)" where
  \<comment> \<open>The inner \<^verbatim>\<open>while idx\<close> loop; the fourth argument lists \<open>idx\<close> in popping order.\<close>
  "split_rows X f p [] idx_left idx_right = Inr (idx_left, idx_right)"
| "split_rows X f p (i # rest) idx_left idx_right =
     (case cell X i f of
        Inl e \<Rightarrow> Inl e
      | Inr xi \<Rightarrow>
          if xi < p then split_rows X f p rest (idx_left @ [i]) idx_right
          else split_rows X f p rest idx_left (idx_right @ [i]))"

type_synonym entry = "nat \<times> nat \<times> nat list"

definition loop_body ::
  "real list list \<Rightarrow> nat \<Rightarrow> entry list \<Rightarrow> heap \<Rightarrow> rng
     \<Rightarrow> error + (nat \<times> entry list \<times> heap \<times> rng)" where
  \<comment> \<open>One round of the breadth-first loop of \<^verbatim>\<open>_build_tree\<close>: the depth taken from
      the queue, the new queue, the new store and the new generator.\<close>
  "loop_body X m que h g =
     (case que of
        [] \<Rightarrow> Inl IndexError
      | (depth, nd, idx) # que1 \<Rightarrow>
          (case choice m g of
             Inl e \<Rightarrow> Inl e
           | Inr (f, g1) \<Rightarrow>
               let h1 = h[nd := (h ! nd)\<lparr>split_feature := Some f\<rparr>] in
               (case get_split X idx f g1 of
                  Inl e \<Rightarrow> Inl e
                | Inr (sp, g2) \<Rightarrow>
                    let h2 = h1[nd := (h1 ! nd)\<lparr>split_point := sp\<rparr>] in
                    (case sp of
                       None \<Rightarrow> Inr (depth, que1, h2, g2)
                     | Some p \<Rightarrow>
                         (case split_rows X f p (rev idx) [] [] of
                            Inl e \<Rightarrow> Inl e
                          | Inr (idx_left, idx_right) \<Rightarrow>
                              let l = length h2;
                                  h3 = h2 @ [Node (int (length idx_left))];
                                  h4 = h3[nd := (h3 ! nd)\<lparr>left := Some l\<rparr>];
                                  r = length h4;
                                  h5 = h4 @ [Node (int (length idx_right))];
                                  h6 = h5[nd := (h5 ! nd)\<lparr>right := Some r\<rparr>]
                              in Inr (depth,
                                      que1 @ [(Suc depth, l, idx_left), (Suc depth, r, idx_right)],
                                      h6, g2))))))"

definition weight :: "int \<Rightarrow> entry \<Rightarrow> nat" where
  "weight max_depth e = 2 ^ Suc (nat (max_depth + 1 - int (fst e))) - 1"

lemma loop_body_queue:
  assumes "loop_body X m que h g = Inr (d, que', h', g')"
  shows "\<exists>nd idx que1. que = (d, nd, idx) # que1 \<and>
           (que' = que1 \<or>
            (\<exists>l il r ir. que' = que1 @ [(Suc d, l, il), (Suc d, r, ir)]))"
  using assms
  by (auto simp: loop_body_def Let_def split: list.splits sum.splits option.splits prod.splits)

lemma loop_body_weight:
  assumes "loop_body X m que h g = Inr (d, que', h', g')"
    and "int (fst (hd que)) \<le> max_depth"
  shows "sum_list (map (weight max_depth) que') < sum_list (map (weight max_depth) que)"
proof -
  from loop_body_queue [OF assms(1)] obtain nd idx que1 where
    q: "que = (d, nd, idx) # que1" and
    c: "que' = que1 \<or> (\<exists>l il r ir. que' = que1 @ [(Suc d, l, il), (Suc d, r, ir)])"
    by blast
  from assms(2) q have d: "int d \<le> max_depth" by simp
  define k where "k = nat (max_depth - int d)"
  have k1: "nat (max_depth + 1 - int d) = Suc k" using d by (simp add: k_def)
  have k2: "nat (max_depth + 1 - int (Suc d)) = k" by (simp add: k_def)
  define P :: nat where "P = 2 ^ k"
  have w: "weight max_depth (d, nd, idx) = 4 * P - 1" by (simp add: weight_def k1 P_def)
  have w': "\<And>a il. weight max_depth (Suc d, a, il) = 2 * P - 1"
    unfolding weight_def fst_conv k2 P_def by simp
  have p: "1 \<le> P" by (simp add: P_def)
  from c show ?thesis
  proof
    assume "que' = que1"
    with q w p show ?thesis by simp
  next
    assume "\<exists>l il r ir. que' = que1 @ [(Suc d, l, il), (Suc d, r, ir)]"
    then obtain l il r ir where "que' = que1 @ [(Suc d, l, il), (Suc d, r, ir)]" by blast
    with q w w' p show ?thesis by simp
  qed
qed

function build_loop ::
  "real list list \<Rightarrow> nat \<Rightarrow> int \<Rightarrow> entry list \<Rightarrow> nat option \<Rightarrow> heap \<Rightarrow> rng
     \<Rightarrow> error + (nat option \<times> heap \<times> rng)" where
  \<comment> \<open>\<^verbatim>\<open>while que and que[0][0] <= max_depth\<close>; the fifth argument is the variable
      \<^verbatim>\<open>depth\<close>, unbound (\<open>None\<close>) until the first round.\<close>
  "build_loop X m max_depth que depth h g =
     (if que \<noteq> [] \<and> int (fst (hd que)) \<le> max_depth then
        (case loop_body X m que h g of
           Inl e \<Rightarrow> Inl e
         | Inr (d, que', h', g') \<Rightarrow> build_loop X m max_depth que' (Some d) h' g')
      else Inr (depth, h, g))"
  by pat_completeness auto
termination
  by (relation "measure (\<lambda>(X, m, max_depth, que, depth, h, g).
                  sum_list (map (weight max_depth) que))")
     (auto dest: loop_body_weight)

declare build_loop.simps [simp del]

definition build_tree ::
  "real list list \<Rightarrow> nat \<Rightarrow> heap \<Rightarrow> int \<Rightarrow> int \<Rightarrow> rng \<Rightarrow> error + (nat \<times> heap \<times> rng)" where
  \<comment> \<open>\<^verbatim>\<open>_build_tree\<close> for the tree whose root is at \<open>rt\<close> in the store; returns the
      value assigned to \<^verbatim>\<open>self.height\<close>.\<close>
  "build_tree X rt h n_samples max_depth g =
     (case X of
        [] \<Rightarrow> Inl IndexError
      | x0 # _ \<Rightarrow>
          let m = length x0; n = length X in
          (case sample n n_samples g of
             Inl e \<Rightarrow> Inl e
           | Inr (idx, g1) \<Rightarrow>
               (case build_loop X m max_depth [(0, rt, idx)] None h g1 of
                  Inl e \<Rightarrow> Inl e
                | Inr (None, h', g') \<Rightarrow> Inl UnboundLocalError
                | Inr (Some depth, h', g') \<Rightarrow> Inr (depth, h', g'))))"

record IsolationTree =
  height :: nat
  root_n :: nat
  nodes :: heap

definition IsolationTree_init ::
  "real list list \<Rightarrow> int \<Rightarrow> int \<Rightarrow> rng \<Rightarrow> error + (IsolationTree \<times> rng)" where
  "IsolationTree_init X n_samples max_depth g =
     (let n = int (length X);
          n_samples' = (if n_samples > n then n else n_samples);
          h = [Node n_samples']
      in case build_tree X 0 h n_samples' max_depth g of
           Inl e \<Rightarrow> Inl e
         | Inr (depth, h', g') \<Rightarrow> Inr (\<lparr>height = depth, root_n = 0, nodes = h'\<rparr>, g'))"

partial_function (option) tree_predict_loop ::
  "heap \<Rightarrow> real list \<Rightarrow> nat \<Rightarrow> nat \<Rightarrow> (error + nat \<times> int) option" where
  \<comment> \<open>\<^verbatim>\<open>while nd.left and nd.right\<close>; \<open>None\<close> is a loop that never ends.\<close>
  "tree_predict_loop h row nd depth =
     (case left (h ! nd) of
        None \<Rightarrow> Some (Inr (depth, size_n (h ! nd)))
      | Some l \<Rightarrow>
          (case right (h ! nd) of
             None \<Rightarrow> Some (Inr (depth, size_n (h ! nd)))
           | Some r \<Rightarrow>
               (case split_feature (h ! nd) of
                  None \<Rightarrow> Some (Inl TypeError)
                | Some f \<Rightarrow>
                    if f < length row then
                      (case split_point (h ! nd) of
                         None \<Rightarrow> Some (Inl TypeError)
                       | Some p \<Rightarrow>
                           if row ! f < p then tree_predict_loop h row l (Suc depth)
                           else tree_predict_loop h row r (Suc depth))
                    else Some (Inl IndexError))))"

declare tree_predict_loop.simps [code]

definition tree_predict :: "IsolationTree \<Rightarrow> real list \<Rightarrow> (error + nat \<times> int) option" where
  "tree_predict t row = tree_predict_loop (nodes t) row (root_n t) 0"

text \<open>
  The descent as the specification words it, as a relation of its own: \<open>walk h row a d b d'\<close>
  holds when, starting at node \<open>a\<close> with the counter at \<open>d\<close>, following at each node with
  two children the left child if the row's value at the split feature is strictly below the
  split point and the right child otherwise, one can arrive at node \<open>b\<close> with the counter at
  \<open>d'\<close>, the counter going up by one per edge.
\<close>

inductive walk :: "heap \<Rightarrow> real list \<Rightarrow> nat \<Rightarrow> nat \<Rightarrow> nat \<Rightarrow> nat \<Rightarrow> bool" where
  here: "walk h row a d a d"
| go_left: "left (h ! a) = Some l \<Longrightarrow> right (h ! a) = Some r \<Longrightarrow>
     split_feature (h ! a) = Some f \<Longrightarrow> split_point (h ! a) = Some p \<Longrightarrow>
     f < length row \<Longrightarrow> row ! f < p \<Longrightarrow> walk h row l (Suc d) b d' \<Longrightarrow> walk h row a d b d'"
| go_right: "left (h ! a) = Some l \<Longrightarrow> right (h ! a) = Some r \<Longrightarrow>
     split_feature (h ! a) = Some f \<Longrightarrow> split_point (h ! a) = Some p \<Longrightarrow>
     f < length row \<Longrightarrow> \<not> row ! f < p \<Longrightarrow> walk h row r (Suc d) b d' \<Longrightarrow> walk h row a d b d'"

code_pred walk .

section \<open>IsolationForest\<close>

record IsolationForest =
  trees :: "IsolationTree list option"
  adjustment :: "real option"

definition IsolationForest_init :: IsolationForest where
  "IsolationForest_init = \<lparr>trees = None, adjustment = None\<rparr>"

definition get_adjustment :: "int \<Rightarrow> real" where
  "get_adjustment node_size =
     (if node_size > 2 then
        (let i = node_size - 1
         in 2 * (ln (real_of_int i) + 0.5772156649) - 2 * real_of_int i / real_of_int node_size)
      else if node_size = 2 then 1
      else 0)"

fun build_trees ::
  "nat \<Rightarrow> real list list \<Rightarrow> int \<Rightarrow> int \<Rightarrow> rng \<Rightarrow> error + (IsolationTree list \<times> rng)" where
  \<comment> \<open>The list comprehension of \<^verbatim>\<open>fit\<close>, one tree after the other.\<close>
  "build_trees 0 X n_samples max_depth g = Inr ([], g)"
| "build_trees (Suc k) X n_samples max_depth g =
     (case IsolationTree_init X n_samples max_depth g of
        Inl e \<Rightarrow> Inl e
      | Inr (t, g1) \<Rightarrow>
          (case build_trees k X n_samples max_depth g1 of
             Inl e \<Rightarrow> Inl e
           | Inr (ts, g2) \<Rightarrow> Inr (t # ts, g2)))"

definition fit ::
  "IsolationForest \<Rightarrow> real list list \<Rightarrow> int \<Rightarrow> int \<Rightarrow> int \<Rightarrow> rng
     \<Rightarrow> (error + rng) \<times> IsolationForest" where
  \<comment> \<open>Returns the forest object as \<^verbatim>\<open>fit\<close> leaves it, also when it raises: the
      adjustment is assigned before the trees are built.\<close>
  "fit self X n_samples max_depth n_trees g =
     (let self1 = self\<lparr>adjustment := Some (get_adjustment n_samples)\<rparr> in
      case build_trees (nat n_trees) X n_samples max_depth g of
        Inl e \<Rightarrow> (Inl e, self1)
      | Inr (ts, g') \<Rightarrow> (Inr g', self1\<lparr>trees := Some ts\<rparr>))"

fun score_loop :: "IsolationTree list \<Rightarrow> real list \<Rightarrow> real \<Rightarrow> (error + real) option" where
  \<comment> \<open>\<^verbatim>\<open>for tree in self.trees: score += depth + adjustment(node_size)\<close>.\<close>
  "score_loop [] row score = Some (Inr score)"
| "score_loop (t # ts) row score =
     (case tree_predict t row of
        None \<Rightarrow> None
      | Some (Inl e) \<Rightarrow> Some (Inl e)
      | Some (Inr (depth, node_size)) \<Rightarrow>
          score_loop ts row (score + (real depth + get_adjustment node_size)))"

definition forest_predict :: "IsolationForest \<Rightarrow> real list \<Rightarrow> (error + real) option" where
  \<comment> \<open>\<^verbatim>\<open>IsolationForest._predict\<close>.\<close>
  "forest_predict self row =
     (case trees self of
        None \<Rightarrow> Some (Inl TypeError)
      | Some ts \<Rightarrow>
          (case score_loop ts row 0 of
             None \<Rightarrow> None
           | Some (Inl e) \<Rightarrow> Some (Inl e)
           | Some (Inr score) \<Rightarrow>
               let n_trees = length ts in
               if n_trees = 0 then Some (Inl ZeroDivisionError)
               else
                 let score' = score / real n_trees in
                 (case adjustment self of
                    None \<Rightarrow> Some (Inl TypeError)
                  | Some a \<Rightarrow>
                      if a = 0 then Some (Inl ZeroDivisionError)
                      else Some (Inr (2 powr - (score' / a))))))"

fun predict :: "IsolationForest \<Rightarrow> real list list \<Rightarrow> (error + real list) option" where
  \<comment> \<open>\<^verbatim>\<open>[self._predict(row) for row in X]\<close>.\<close>
  "predict self [] = Some (Inr [])"
| "predict self (row # X) =
     (case forest_predict self row of
        None \<Rightarrow> None
      | Some (Inl e) \<Rightarrow> Some (Inl e)
      | Some (Inr y) \<Rightarrow>
          (case predict self X of
             None \<Rightarrow> None
           | Some (Inl e) \<Rightarrow> Some (Inl e)
           | Some (Inr ys) \<Rightarrow> Some (Inr (y # ys))))"

section \<open>The adjustment formula\<close>

lemma ln2_lower: "37 / 60 \<le> ln (2::real)"
proof -
  have a: "ln (4/5::real) \<le> 4/5 - 1" by (rule ln_le_minus_one) simp
  have b: "ln (3/4::real) \<le> 3/4 - 1" by (rule ln_le_minus_one) simp
  have c: "ln (5/6::real) \<le> 5/6 - 1" by (rule ln_le_minus_one) simp
  have m1: "ln (4/5::real) + ln (3/4) = ln (3/5)"
    using ln_mult_pos [of "4/5::real" "3/4"] by simp
  have m2: "ln (3/5::real) + ln (5/6) = ln (1/2)"
    using ln_mult_pos [of "3/5::real" "5/6"] by simp
  have "ln (1/2::real) \<le> - (37/60)" using a b c m1 m2 by simp
  moreover have "ln (1/2::real) = - ln 2" by (simp add: ln_div)
  ultimately show ?thesis by simp
qed

lemma adj_step:
  assumes "3 \<le> (n::int)"
  shows "get_adjustment n \<le> get_adjustment (n + 1)"
proof -
  define x where "x = real_of_int n"
  define P where "P = (x - 1) / x"
  define Q where "Q = x / (x + 1)"
  have x: "3 \<le> x" using assms by (simp add: x_def)
  have "ln P \<le> P - 1"
    unfolding P_def by (rule ln_le_minus_one) (use x in simp)
  moreover have "ln P = ln (x - 1) - ln x"
    unfolding P_def using x by (simp add: ln_div)
  moreover have "P - 1 = - (1 / x)"
    unfolding P_def using x by (simp add: field_simps)
  ultimately have l: "ln (x - 1) + 1 / x \<le> ln x" by simp
  have d: "Q - P = 1 / (x * (x + 1))"
    unfolding P_def Q_def using x by (simp add: field_simps)
  have "1 / (x * (x + 1)) \<le> 1 / x"
    by (rule divide_left_mono) (use x in auto)
  with d l have "2 * (ln (x - 1) + 0.5772156649) - 2 * P
             \<le> 2 * (ln x + 0.5772156649) - 2 * Q"
    by simp
  moreover have "get_adjustment n = 2 * (ln (x - 1) + 0.5772156649) - 2 * P"
    using assms by (simp add: get_adjustment_def Let_def x_def P_def)
  moreover have "get_adjustment (n + 1) = 2 * (ln x + 0.5772156649) - 2 * Q"
    using assms by (simp add: get_adjustment_def Let_def x_def Q_def)
  ultimately show ?thesis by simp
qed

lemma adj_2_3: "get_adjustment 2 \<le> get_adjustment 3"
  using ln2_lower by (simp add: get_adjustment_def Let_def)


lemma adj_mono_from_3:
  assumes "a \<le> b" and "3 \<le> a"
  shows "get_adjustment a \<le> get_adjustment b"
  using assms
proof (induction b rule: int_ge_induct)
  case base
  show ?case by simp
next
  case (step i)
  have "get_adjustment i \<le> get_adjustment (i + 1)"
    using step.hyps step.prems by (intro adj_step) simp
  with step show ?case by simp
qed

lemma adj_mono: "2 \<le> a \<Longrightarrow> a \<le> b \<Longrightarrow> get_adjustment a \<le> get_adjustment b"
proof (cases "a = 2")
  case False
  assume "2 \<le> a" "a \<le> b"
  with False show ?thesis by (intro adj_mono_from_3) simp_all
next
  case True
  assume ab: "a \<le> b"
  show ?thesis
  proof (cases "b = 2")
    case True
    with \<open>a = 2\<close> show ?thesis by simp
  next
    case False
    with ab \<open>a = 2\<close> have "3 \<le> b" by simp
    then have "get_adjustment 3 \<le> get_adjustment b" by (intro adj_mono_from_3) simp_all
    with adj_2_3 \<open>a = 2\<close> show ?thesis by simp
  qed
qed



text \<open>
  C2. For every integer \<open>node_size\<close>, \<^verbatim>\<open>_get_adjustment\<close> returns
  \<open>2 * (ln (node_size - 1) + 0.5772156649) - 2 * (node_size - 1) / node_size\<close> when
  \<open>node_size > 2\<close>, \<open>1\<close> when \<open>node_size = 2\<close> and \<open>0\<close> when \<open>node_size \<le> 1\<close>.
\<close>

theorem get_adjustment_cases:
  "(node_size > 2 \<longrightarrow>
      get_adjustment node_size =
        2 * (ln (real_of_int (node_size - 1)) + 0.5772156649)
          - 2 * real_of_int (node_size - 1) / real_of_int node_size) \<and>
   (node_size = 2 \<longrightarrow> get_adjustment node_size = 1) \<and>
   (node_size \<le> 1 \<longrightarrow> get_adjustment node_size = 0)"
  by (simp add: get_adjustment_def Let_def)

theorem get_adjustment_cases_witness:
  "(3::int) > 2 \<and> get_adjustment 3 = 2 * (ln 2 + 0.5772156649) - 4 / 3 \<and>
   get_adjustment 2 = 1 \<and>
   (1::int) \<le> 1 \<and> get_adjustment 1 = 0 \<and>
   (- 4::int) \<le> 1 \<and> get_adjustment (- 4) = 0"
  using get_adjustment_cases [of 3] get_adjustment_cases [of 2]
    get_adjustment_cases [of 1] get_adjustment_cases [of "- 4"]
  by simp



section \<open>Facts about the random source\<close>

lemma rng_okI:
  assumes "sset (choices g1) \<subseteq> sset (choices g)" and "sset (randoms g1) \<subseteq> sset (randoms g)"
    and "rng_ok m g"
  shows "rng_ok m g1"
  using assms unfolding rng_ok_def by blast

lemma sset_stl_subset: "sset (stl s) \<subseteq> sset s"
  by (rule subsetI) (rule stl_sset)

lemma rng_ok_choice:
  assumes "rng_ok m g" and "choice m g = Inr (f, g1)"
  shows "f < m \<and> rng_ok m g1"
proof -
  from assms(2) have f: "f = shd (choices g)" and g1: "g1 = g\<lparr>choices := stl (choices g)\<rparr>"
    by (simp_all add: choice_def split: if_splits)
  have "shd (choices g) \<in> sset (choices g)" by (rule shd_sset)
  with assms(1) have "f < m" unfolding f rng_ok_def by blast
  moreover have "rng_ok m g1"
    by (rule rng_okI [OF _ _ assms(1)]) (simp_all add: g1 sset_stl_subset)
  ultimately show ?thesis by simp
qed

lemma rng_ok_random:
  assumes "rng_ok m g" and "random g = (r, g1)"
  shows "0 \<le> r \<and> r < 1 \<and> rng_ok m g1"
proof -
  from assms(2) have f: "r = shd (randoms g)" and g1: "g1 = g\<lparr>randoms := stl (randoms g)\<rparr>"
    by (simp_all add: random_def)
  have "shd (randoms g) \<in> sset (randoms g)" by (rule shd_sset)
  with assms(1) have "0 \<le> r \<and> r < 1" unfolding f rng_ok_def by blast
  moreover have "rng_ok m g1"
    by (rule rng_okI [OF _ _ assms(1)]) (simp_all add: g1 sset_stl_subset)
  ultimately show ?thesis by simp
qed

lemma rng_ok_sample:
  assumes "rng_ok m g" and "sample n k g = Inr (idx, g1)"
  shows "rng_ok m g1"
proof -
  from assms(2) have g1: "g1 = g\<lparr>samples := stl (samples g)\<rparr>"
    by (simp add: sample_def split: if_splits)
  show ?thesis
    by (rule rng_okI [OF _ _ assms(1)]) (simp_all add: g1)
qed

section \<open>Facts about split-point selection\<close>

definition rows_ok :: "real list list \<Rightarrow> nat \<Rightarrow> nat list \<Rightarrow> bool" where
  "rows_ok X f idx \<longleftrightarrow> (\<forall>i \<in> set idx. i < length X \<and> f < length (X ! i))"

lemma rows_ok_Cons: "rows_ok X f (i # idx) \<longleftrightarrow> i < length X \<and> f < length (X ! i) \<and> rows_ok X f idx"
  by (simp add: rows_ok_def)

lemma column_eq:
  "column X f idx = (if rows_ok X f idx then Inr (map (\<lambda>i. X ! i ! f) idx) else Inl IndexError)"
  by (induction idx) (simp_all add: rows_ok_Cons cell_def rows_ok_def)

lemma split_rows_eq:
  assumes "rows_ok X f xs"
  shows "split_rows X f p xs L R =
           Inr (L @ filter (\<lambda>i. X ! i ! f < p) xs, R @ filter (\<lambda>i. \<not> X ! i ! f < p) xs)"
  using assms
  by (induction xs arbitrary: L R) (simp_all add: rows_ok_Cons cell_def)

lemma rows_ok_rev: "rows_ok X f (rev idx) = rows_ok X f idx"
  by (simp add: rows_ok_def)


text \<open>The bounds of the split point, over an arbitrary finite set of values.\<close>

lemma split_point_bounds:
  fixes U :: "real set"
  assumes fin: "finite U" and ne: "U \<noteq> {}" and c: "card U \<noteq> 1"
    and r: "0 \<le> r" "r < 1"
  defines "U' \<equiv> U - {Min U}"
  defines "sp \<equiv> r * (Max U' - Min U') + Min U'"
  shows "U' \<noteq> {}" and "Min U < Min U'" and "Max U' = Max U"
    and "Min U' \<le> sp" and "sp \<le> Max U'" and "Min U' < Max U' \<Longrightarrow> sp < Max U'"
    and "Min U < sp"
proof -
  have finU': "finite U'" using fin by (simp add: U'_def)
  show ne': "U' \<noteq> {}"
  proof
    assume "U' = {}"
    then have "U \<subseteq> {Min U}" by (auto simp: U'_def)
    with ne have "U = {Min U}" by auto
    then have "card U = card {Min U}" by (rule arg_cong)
    with c show False by simp
  qed
  have "Min U' \<in> U'" using finU' ne' by (rule Min_in)
  then have "Min U' \<in> U" "Min U' \<noteq> Min U" by (auto simp: U'_def)
  moreover from \<open>Min U' \<in> U\<close> have "Min U \<le> Min U'" using fin by simp
  ultimately show lt: "Min U < Min U'" by simp
  have "Max U \<in> U" using fin ne by (rule Max_in)
  moreover have "Max U \<noteq> Min U"
  proof
    assume "Max U = Min U"
    then have "Max U \<le> Min U'" using lt by simp
    moreover have "Min U' \<le> Max U" using \<open>Min U' \<in> U\<close> fin by simp
    ultimately show False using lt \<open>Max U = Min U\<close> by simp
  qed
  ultimately have "Max U \<in> U'" by (simp add: U'_def)
  then have "Max U \<le> Max U'" using finU' by simp
  moreover have "Max U' \<le> Max U"
    using fin ne' by (intro Max_mono) (auto simp: U'_def)
  ultimately show "Max U' = Max U" by simp
  have le: "Min U' \<le> Max U'" using finU' ne' by simp
  then have d: "0 \<le> Max U' - Min U'" by simp
  have "0 \<le> r * (Max U' - Min U')" using r(1) d by simp
  then show lo: "Min U' \<le> sp" by (simp add: sp_def)
  have "r * (Max U' - Min U') \<le> 1 * (Max U' - Min U')"
    using r(2) d by (intro mult_right_mono) simp_all
  then show "sp \<le> Max U'" by (simp add: sp_def)
  show "sp < Max U'" if "Min U' < Max U'"
  proof -
    have "r * (Max U' - Min U') < 1 * (Max U' - Min U')"
      using r(2) that by (intro mult_strict_right_mono) simp_all
    then show ?thesis by (simp add: sp_def)
  qed
  from lt lo show "Min U < sp" by simp
qed


definition distinct_values :: "real list list \<Rightarrow> nat list \<Rightarrow> nat \<Rightarrow> real set" where
  "distinct_values X idx f = set (map (\<lambda>i. X ! i ! f) idx)"

definition remaining_values :: "real list list \<Rightarrow> nat list \<Rightarrow> nat \<Rightarrow> real set" where
  "remaining_values X idx f = distinct_values X idx f - {Min (distinct_values X idx f)}"

lemma get_split_eq:
  "get_split X idx f g =
     (if \<not> rows_ok X f idx then Inl IndexError
      else if card (distinct_values X idx f) = 1 then Inr (None, g)
      else if idx = [] then Inl ValueError
      else Inr (Some (shd (randoms g)
                        * (Max (remaining_values X idx f) - Min (remaining_values X idx f))
                      + Min (remaining_values X idx f)),
                g\<lparr>randoms := stl (randoms g)\<rparr>))"
  by (simp add: get_split_def column_eq random_def Let_def distinct_values_def
        remaining_values_def)

lemma get_split_Some:
  assumes "get_split X idx f g = Inr (Some p, g')" and "rng_ok m g"
  shows "rows_ok X f idx" and "idx \<noteq> []"
    and "Min (distinct_values X idx f) < p" and "p \<le> Max (distinct_values X idx f)"
    and "rng_ok m g'"
proof -
  let ?U = "distinct_values X idx f"
  from assms(1) show ok: "rows_ok X f idx" and ne: "idx \<noteq> []"
    by (auto simp: get_split_eq split: if_splits)
  from assms(1) have c: "card ?U \<noteq> 1"
    and p: "p = shd (randoms g) * (Max (?U - {Min ?U}) - Min (?U - {Min ?U})) + Min (?U - {Min ?U})"
    and g': "g' = g\<lparr>randoms := stl (randoms g)\<rparr>"
    by (auto simp: get_split_eq remaining_values_def split: if_splits)
  have "random g = (shd (randoms g), g')" by (simp add: random_def g')
  from rng_ok_random [OF assms(2) this]
  have r: "0 \<le> shd (randoms g)" "shd (randoms g) < 1" and "rng_ok m g'" by simp_all
  then show "rng_ok m g'" by simp
  have fin: "finite ?U" and neU: "?U \<noteq> {}" using ne by (simp_all add: distinct_values_def)
  from split_point_bounds(7) [OF fin neU c r] show "Min ?U < p" by (simp add: p)
  from split_point_bounds(5) [OF fin neU c r] split_point_bounds(3) [OF fin neU c r]
  show "p \<le> Max ?U" by (simp add: p)
qed

lemma get_split_None:
  assumes "get_split X idx f g = Inr (None, g')"
  shows "g' = g"
  using assms by (auto simp: get_split_eq split: if_splits)

lemma split_nonempty:
  assumes gs: "get_split X idx f g = Inr (Some p, g')" and ok: "rng_ok m g"
    and sr: "split_rows X f p (rev idx) [] [] = Inr (idx_left, idx_right)"
  shows "idx_left \<noteq> [] \<and> idx_right \<noteq> []"
proof -
  let ?U = "distinct_values X idx f"
  note s = get_split_Some [OF gs ok]
  have fin: "finite ?U" and neU: "?U \<noteq> {}" using s(2) by (simp_all add: distinct_values_def)
  from sr have l: "idx_left = filter (\<lambda>i. X ! i ! f < p) (rev idx)"
    and r: "idx_right = filter (\<lambda>i. \<not> X ! i ! f < p) (rev idx)"
    using s(1) by (simp_all add: split_rows_eq rows_ok_rev)
  have "Min ?U \<in> ?U" using fin neU by (rule Min_in)
  then obtain i where i: "i \<in> set idx" "X ! i ! f = Min ?U"
    by (auto simp: distinct_values_def)
  with s(3) have "i \<in> set idx_left" by (simp add: l)
  moreover
  have "Max ?U \<in> ?U" using fin neU by (rule Max_in)
  then obtain j where j: "j \<in> set idx" "X ! j ! f = Max ?U"
    by (auto simp: distinct_values_def)
  with s(4) have "j \<in> set idx_right" by (simp add: r)
  ultimately show ?thesis by auto
qed

lemma loop_body_cases:
  assumes "loop_body X m ((d0, nd, idx) # que1) h g = Inr (d, que', h', g')"
    and "nd < length h"
  obtains (leaf) f g1 where "choice m g = Inr (f, g1)"
      and "get_split X idx f g1 = Inr (None, g')" and "d = d0" and "que' = que1"
      and "h' = h[nd := (h ! nd)\<lparr>split_feature := Some f, split_point := None\<rparr>]"
  | (split) f g1 p il ir where "choice m g = Inr (f, g1)"
      and "get_split X idx f g1 = Inr (Some p, g')"
      and "split_rows X f p (rev idx) [] [] = Inr (il, ir)" and "d = d0"
      and "que' = que1 @ [(Suc d0, length h, il), (Suc d0, Suc (length h), ir)]"
      and "h' = h[nd := (h ! nd)\<lparr>split_feature := Some f, split_point := Some p,
                     left := Some (length h), right := Some (Suc (length h))\<rparr>]
                 @ [Node (int (length il)), Node (int (length ir))]"
proof -
  from assms(1) obtain f g1 where c: "choice m g = Inr (f, g1)"
    by (auto simp: loop_body_def split: sum.splits)
  from assms(1) c obtain sp where gs: "get_split X idx f g1 = Inr (sp, g')"
    by (auto simp: loop_body_def Let_def split: sum.splits option.splits)
  show thesis
  proof (cases sp)
    case None
    with assms c gs have "d = d0" "que' = que1"
      "h' = h[nd := (h ! nd)\<lparr>split_feature := Some f, split_point := None\<rparr>]"
      by (auto simp add: loop_body_def Let_def)
    with c gs None show thesis by (intro leaf) simp_all
  next
    case (Some p)
    with assms(1) c gs obtain il ir where
      sr: "split_rows X f p (rev idx) [] [] = Inr (il, ir)"
      by (auto simp: loop_body_def Let_def split: sum.splits)
    with assms c gs Some have "d = d0"
      "que' = que1 @ [(Suc d0, length h, il), (Suc d0, Suc (length h), ir)]"
      "h' = h[nd := (h ! nd)\<lparr>split_feature := Some f, split_point := Some p,
                     left := Some (length h), right := Some (Suc (length h))\<rparr>]
                 @ [Node (int (length il)), Node (int (length ir))]"
      by (auto simp add: loop_body_def Let_def nth_append list_update_append)
    with c gs Some sr show thesis by (intro split) simp_all
  qed
qed

section \<open>The invariant of tree construction\<close>

text \<open>
  \<open>dep\<close> assigns to every node of the store its distance from the root; it is a ghost
  of the proof, the tree does not record it.
\<close>

definition child_ok :: "(nat \<Rightarrow> nat) \<Rightarrow> heap \<Rightarrow> nat \<Rightarrow> nat \<Rightarrow> bool" where
  "child_ok dep h a c \<longleftrightarrow>
     a < c \<and> c < length h \<and> 1 \<le> size_n (h ! c) \<and> dep c = Suc (dep a)"

definition node_ok :: "nat \<Rightarrow> int \<Rightarrow> (nat \<Rightarrow> nat) \<Rightarrow> heap \<Rightarrow> nat \<Rightarrow> bool" where
  "node_ok m md dep h a \<longleftrightarrow>
     (left (h ! a) = None \<and> right (h ! a) = None) \<or>
     (\<exists>l r f p. left (h ! a) = Some l \<and> right (h ! a) = Some r \<and>
        split_feature (h ! a) = Some f \<and> split_point (h ! a) = Some p \<and>
        f < m \<and> int (dep a) \<le> md \<and> child_ok dep h a l \<and> child_ok dep h a r)"

definition entry_ok :: "(nat \<Rightarrow> nat) \<Rightarrow> heap \<Rightarrow> entry \<Rightarrow> bool" where
  "entry_ok dep h e \<longleftrightarrow>
     fst (snd e) < length h \<and> dep (fst (snd e)) = fst e \<and>
     left (h ! fst (snd e)) = None \<and> right (h ! fst (snd e)) = None"

definition heap_inv :: "nat \<Rightarrow> int \<Rightarrow> nat \<Rightarrow> (nat \<Rightarrow> nat) \<Rightarrow> heap \<Rightarrow> entry list \<Rightarrow> bool" where
  "heap_inv m md rt dep h que \<longleftrightarrow>
     rt < length h \<and> dep rt = 0 \<and> (\<forall>a < length h. node_ok m md dep h a) \<and>
     (\<forall>e \<in> set que. entry_ok dep h e) \<and> distinct (map (\<lambda>e. fst (snd e)) que)"

lemma node_ok_extend:
  assumes ok: "node_ok m md dep h a" and a: "a < length h" and len: "length h \<le> length h'"
    and l: "left (h' ! a) = left (h ! a)" and r: "right (h' ! a) = right (h ! a)"
    and f: "left (h ! a) \<noteq> None \<Longrightarrow>
              split_feature (h' ! a) = split_feature (h ! a) \<and>
              split_point (h' ! a) = split_point (h ! a)"
    and sz: "\<And>c. c < length h \<Longrightarrow> size_n (h' ! c) = size_n (h ! c)"
    and dp: "\<And>c. c < length h \<Longrightarrow> dep' c = dep c"
  shows "node_ok m md dep' h' a"
proof (cases "left (h ! a)")
  case None
  with ok have "right (h ! a) = None" by (auto simp: node_ok_def)
  with None l r show ?thesis by (simp add: node_ok_def)
next
  case (Some l0)
  with ok obtain r0 f0 p0 where i: "right (h ! a) = Some r0"
    "split_feature (h ! a) = Some f0" "split_point (h ! a) = Some p0"
    "f0 < m" "int (dep a) \<le> md" "child_ok dep h a l0" "child_ok dep h a r0"
    by (auto simp: node_ok_def)
  have c: "child_ok dep' h' a c" if "child_ok dep h a c" for c
    using that a len sz [of c] dp [of c] dp [of a] by (simp add: child_ok_def)
  from Some i f l r dp [OF a] c [OF i(6)] c [OF i(7)] show ?thesis
    by (simp add: node_ok_def)
qed

lemma entry_ok_extend:
  assumes "entry_ok dep h e" and "length h \<le> length h'"
    and "h' ! fst (snd e) = h ! fst (snd e)" and "dep' (fst (snd e)) = dep (fst (snd e))"
  shows "entry_ok dep' h' e"
  using assms by (simp add: entry_ok_def)

lemma heap_inv_ConsD:
  assumes "heap_inv m md rt dep h ((d0, nd, idx) # que1)"
  shows "nd < length h" and "left (h ! nd) = None" and "right (h ! nd) = None" and "dep nd = d0"
    and "\<forall>e \<in> set que1. entry_ok dep h e" and "\<forall>e \<in> set que1. fst (snd e) \<noteq> nd"
    and "distinct (map (\<lambda>e. fst (snd e)) que1)"
    and "rt < length h" and "dep rt = 0" and "\<forall>a < length h. node_ok m md dep h a"
  using assms by (auto simp: heap_inv_def entry_ok_def)
lemma heap_inv_leaf:
  assumes inv: "heap_inv m md rt dep h ((d0, nd, idx) # que1)"
    and h': "h' = h[nd := (h ! nd)\<lparr>split_feature := Some f, split_point := sp\<rparr>]"
  shows "heap_inv m md rt dep h' que1"
proof -
  note i = heap_inv_ConsD [OF inv]
  note nd = i(1-4) and rest = i(5,6) and dist = i(7) and rt = i(8,9) and nodes = i(10)
  have len: "length h' = length h" by (simp add: h')
  have nth: "\<And>a. a \<noteq> nd \<Longrightarrow> h' ! a = h ! a" by (simp add: h')
  have nth_nd: "h' ! nd = (h ! nd)\<lparr>split_feature := Some f, split_point := sp\<rparr>"
    using nd(1) by (simp add: h')
  have l: "left (h' ! a) = left (h ! a)" and r: "right (h' ! a) = right (h ! a)"
    and sz: "size_n (h' ! a) = size_n (h ! a)" for a
    using nth [of a] nth_nd by (cases "a = nd"; simp)+
  have "node_ok m md dep h' a" if a: "a < length h" for a
  proof (rule node_ok_extend [where h = h and dep = dep])
    show "node_ok m md dep h a" using nodes a by simp
    show "left (h ! a) \<noteq> None \<Longrightarrow>
            split_feature (h' ! a) = split_feature (h ! a) \<and>
            split_point (h' ! a) = split_point (h ! a)"
      using nd(2) nth [of a] by (cases "a = nd") simp_all
  qed (simp_all add: a len l r sz)
  moreover have "entry_ok dep h' e" if "e \<in> set que1" for e
    using rest that nth [of "fst (snd e)"]
    by (simp add: entry_ok_def len)
  ultimately show ?thesis using rt dist by (simp add: heap_inv_def len)
qed

lemma heap_inv_split:
  assumes inv: "heap_inv m md rt dep h ((d0, nd, idx) # que1)"
    and h': "h' = h[nd := (h ! nd)\<lparr>split_feature := Some f, split_point := Some p,
                     left := Some (length h), right := Some (Suc (length h))\<rparr>]
                 @ [Node (int (length il)), Node (int (length ir))]"
    and f: "f < m" and d0: "int d0 \<le> md" and il: "il \<noteq> []" and ir: "ir \<noteq> []"
    and dep': "dep' = dep(length h := Suc d0, Suc (length h) := Suc d0)"
  shows "heap_inv m md rt dep' h'
           (que1 @ [(Suc d0, length h, il), (Suc d0, Suc (length h), ir)])"
proof -
  note i = heap_inv_ConsD [OF inv]
  note nd = i(1-4) and rest = i(5,6) and dist = i(7) and rt = i(8,9) and nodes = i(10)
  let ?N = "(h ! nd)\<lparr>split_feature := Some f, split_point := Some p,
                     left := Some (length h), right := Some (Suc (length h))\<rparr>"
  have len: "length h' = Suc (Suc (length h))" by (simp add: h')
  have nth: "\<And>a. a < length h \<Longrightarrow> a \<noteq> nd \<Longrightarrow> h' ! a = h ! a"
    by (simp add: h' nth_append)
  have nth_nd: "h' ! nd = ?N" using nd(1) by (simp add: h' nth_append)
  have nth_l: "h' ! length h = Node (int (length il))" by (simp add: h' nth_append)
  have nth_r: "h' ! Suc (length h) = Node (int (length ir))" by (simp add: h' nth_append)
  have dp: "\<And>c. c < length h \<Longrightarrow> dep' c = dep c" by (simp add: dep')
  have sz: "size_n (h' ! a) = size_n (h ! a)" if "a < length h" for a
    using nth [of a] nth_nd that by (cases "a = nd") simp_all
  have old: "node_ok m md dep' h' a" if a: "a < length h" "a \<noteq> nd" for a
    by (rule node_ok_extend [where h = h and dep = dep])
       (use nodes a nth [of a] sz dp in \<open>simp_all add: len\<close>)
  have pos: "1 \<le> int (length il)" "1 \<le> int (length ir)"
  proof -
    show "1 \<le> int (length il)" using il by (cases il) simp_all
    show "1 \<le> int (length ir)" using ir by (cases ir) simp_all
  qed
  have cl: "child_ok dep' h' nd (length h)"
    using nd(1,4) pos(1) by (simp add: child_ok_def len nth_l Node_def dep')
  have cr: "child_ok dep' h' nd (Suc (length h))"
    using nd(1,4) pos(2) by (simp add: child_ok_def len nth_r Node_def dep')
  have dnd: "dep' nd = d0" using nd(1,4) by (simp add: dep')
  have new: "node_ok m md dep' h' nd"
    unfolding node_ok_def using f d0 cl cr dnd by (simp add: nth_nd)
  have leaves: "node_ok m md dep' h' (length h)" "node_ok m md dep' h' (Suc (length h))"
    by (simp_all add: node_ok_def nth_l nth_r Node_def)
  have all: "node_ok m md dep' h' a" if "a < length h'" for a
  proof -
    from that len consider "a < length h" "a \<noteq> nd" | "a = nd" | "a = length h" | "a = Suc (length h)"
      by linarith
    then show ?thesis using old new leaves by cases simp_all
  qed
  have e1: "entry_ok dep' h' e" if "e \<in> set que1" for e
  proof (rule entry_ok_extend [where h = h and dep = dep])
    from rest that have e: "entry_ok dep h e" "fst (snd e) \<noteq> nd" by simp_all
    then have lt: "fst (snd e) < length h" by (simp add: entry_ok_def)
    show "entry_ok dep h e" by fact
    show "length h \<le> length h'" by (simp add: len)
    show "h' ! fst (snd e) = h ! fst (snd e)" using nth lt e(2) by simp
    show "dep' (fst (snd e)) = dep (fst (snd e))" using dp lt by simp
  qed
  have e2: "entry_ok dep' h' (Suc d0, length h, il)" "entry_ok dep' h' (Suc d0, Suc (length h), ir)"
    by (simp_all add: entry_ok_def len nth_l nth_r Node_def dep')
  have lt: "\<forall>e \<in> set que1. fst (snd e) < length h"
    using rest(1) by (simp add: entry_ok_def)
  have notin: "length h \<notin> (\<lambda>e. fst (snd e)) ` set que1"
    "Suc (length h) \<notin> (\<lambda>e. fst (snd e)) ` set que1"
    using lt by fastforce+
  have d: "distinct (map (\<lambda>e. fst (snd e))
             (que1 @ [(Suc d0, length h, il), (Suc d0, Suc (length h), ir)]))"
    using dist notin by simp
  have ents: "\<forall>e \<in> set (que1 @ [(Suc d0, length h, il), (Suc d0, Suc (length h), ir)]).
                entry_ok dep' h' e"
    using e1 e2 by simp
  from rt have "rt < length h'" "dep' rt = 0" by (simp_all add: len dp)
  with all ents d show ?thesis by (simp add: heap_inv_def)
qed


lemma loop_body_inv:
  assumes lb: "loop_body X m que h g = Inr (d, que', h', g')"
    and guard: "que \<noteq> []" "int (fst (hd que)) \<le> md"
    and inv: "heap_inv m md rt dep h que" and ok: "rng_ok m g"
  shows "\<exists>dep'. heap_inv m md rt dep' h' que' \<and> rng_ok m g' \<and> int d \<le> md"
proof -
  from guard(1) obtain d0 nd idx que1 where que: "que = (d0, nd, idx) # que1"
    by (cases que) auto
  note inv' = inv [unfolded que]
  have nd: "nd < length h" by (rule heap_inv_ConsD(1) [OF inv'])
  from guard(2) have d0: "int d0 \<le> md" by (simp add: que)
  from lb [unfolded que] nd show ?thesis
  proof (cases rule: loop_body_cases)
    case (leaf f g1)
    from rng_ok_choice [OF ok leaf(1)] have "rng_ok m g1" by simp
    with get_split_None [OF leaf(2)] have "rng_ok m g'" by simp
    moreover have "heap_inv m md rt dep h' que'"
      unfolding leaf(4) by (rule heap_inv_leaf [OF inv' leaf(5)])
    ultimately show ?thesis using d0 leaf(3) by blast
  next
    case (split f g1 p il ir)
    from rng_ok_choice [OF ok split(1)] have f: "f < m" and g1: "rng_ok m g1" by simp_all
    have "rng_ok m g'" by (rule get_split_Some(5) [OF split(2) g1])
    moreover from split_nonempty [OF split(2) g1 split(3)] have "il \<noteq> []" "ir \<noteq> []"
      by simp_all
    then have "heap_inv m md rt (dep(length h := Suc d0, Suc (length h) := Suc d0)) h' que'"
      unfolding split(5) by (intro heap_inv_split [OF inv' split(6) f d0]) simp_all
    ultimately show ?thesis using d0 split(4) by blast
  qed
qed

lemma build_loop_inv:
  "build_loop X m md que depth h g = Inr (depth', h', g') \<Longrightarrow>
   rng_ok m g \<Longrightarrow> heap_inv m md rt dep h que \<Longrightarrow>
   (\<exists>dep' que'. heap_inv m md rt dep' h' que') \<and> rng_ok m g' \<and>
   (depth' = depth \<or> (\<exists>d. depth' = Some d \<and> int d \<le> md))"
proof (induction X m md que depth h g arbitrary: dep rule: build_loop.induct)
  case (1 X m md que depth h g)
  show ?case
  proof (cases "que \<noteq> [] \<and> int (fst (hd que)) \<le> md")
    case False
    with "1.prems" show ?thesis
      by (subst (asm) build_loop.simps) auto
  next
    case True
    with "1.prems"(1) obtain d que1 h1 g1 where
      lb: "loop_body X m que h g = Inr (d, que1, h1, g1)"
      and rec: "build_loop X m md que1 (Some d) h1 g1 = Inr (depth', h', g')"
      by (subst (asm) build_loop.simps) (auto split: sum.splits)
    from loop_body_inv [OF lb _ _ "1.prems"(3) "1.prems"(2)] True
    obtain dep1 where i1: "heap_inv m md rt dep1 h1 que1" and g1: "rng_ok m g1"
      and d: "int d \<le> md" by blast
    from "1.IH" [OF True lb refl refl refl rec g1 i1] d show ?thesis by auto
  qed
qed

section \<open>Well-formed trees\<close>

definition tree_ok :: "nat \<Rightarrow> int \<Rightarrow> IsolationTree \<Rightarrow> bool" where
  "tree_ok m md t \<longleftrightarrow>
     0 \<le> md \<and> (\<exists>dep que. heap_inv m md (root_n t) dep (nodes t) que)"

lemma heap_inv_init: "heap_inv m md 0 (\<lambda>_. 0) [Node sz] [(0, 0, idx)]"
  by (simp add: heap_inv_def node_ok_def entry_ok_def Node_def)

lemma IsolationTree_init_ok:
  assumes init: "IsolationTree_init X n_samples md g = Inr (t, g')"
    and ok: "rng_ok (length (hd X)) g"
  shows "tree_ok (length (hd X)) md t" and "rng_ok (length (hd X)) g'"
proof -
  let ?m = "length (hd X)"
  define k where "k = (if int (length X) < n_samples then int (length X) else n_samples)"
  from init obtain depth h' where
    bt: "build_tree X 0 [Node k] k md g = Inr (depth, h', g')"
    and t: "t = \<lparr>height = depth, root_n = 0, nodes = h'\<rparr>"
    unfolding IsolationTree_init_def Let_def k_def [symmetric]
    by (auto split: sum.splits)
  from bt obtain x0 xs where X: "X = x0 # xs"
    by (cases X) (auto simp: build_tree_def)
  have m: "length x0 = ?m" by (simp add: X)
  from bt obtain idx g1 where s: "sample (length X) k g = Inr (idx, g1)"
    unfolding build_tree_def X list.case Let_def by (auto split: sum.splits)
  from bt s have
    bl: "build_loop X ?m md [(0, 0, idx)] None [Node k] g1 = Inr (Some depth, h', g')"
    unfolding build_tree_def X list.case Let_def m
    by (auto split: sum.splits option.splits)
  have g1: "rng_ok ?m g1" by (rule rng_ok_sample [OF ok s])
  from build_loop_inv [OF bl g1 heap_inv_init]
  have "\<exists>dep' que'. heap_inv ?m md 0 dep' h' que'" and "rng_ok ?m g'"
    and "\<exists>d. Some depth = Some d \<and> int d \<le> md" by auto
  then show "tree_ok ?m md t" and "rng_ok ?m g'"
    by (auto simp: tree_ok_def t)
qed

definition arrives :: "int \<Rightarrow> (nat \<Rightarrow> nat) \<Rightarrow> heap \<Rightarrow> real list \<Rightarrow> nat \<Rightarrow> nat \<Rightarrow> nat \<Rightarrow> bool" where
  "arrives md dep h row a k b \<longleftrightarrow>
     tree_predict_loop h row a k = Some (Inr (k + (dep b - dep a), size_n (h ! b))) \<and>
     walk h row a k b (k + (dep b - dep a)) \<and> b < length h \<and>
     left (h ! b) = None \<and> right (h ! b) = None \<and> dep a \<le> dep b \<and>
     (b = a \<or> int (dep b) \<le> md + 1)"

lemma query_walk:
  assumes inv: "heap_inv m md rt dep h que"
  shows "a < length h \<Longrightarrow>
    (\<exists>b. arrives md dep h row a k b) \<or>
    (tree_predict_loop h row a k = Some (Inl IndexError) \<and> \<not> m \<le> length row)"
proof (induction "length h - a" arbitrary: a k rule: less_induct)
  case less
  from inv less.prems have ok: "node_ok m md dep h a" by (simp add: heap_inv_def)
  show ?case
  proof (cases "left (h ! a)")
    case None
    with ok have r: "right (h ! a) = None" by (auto simp: node_ok_def)
    have "tree_predict_loop h row a k = Some (Inr (k, size_n (h ! a)))"
      by (subst tree_predict_loop.simps) (simp add: None)
    with None r less.prems walk.here [of h row a k] have "arrives md dep h row a k a"
      by (simp add: arrives_def)
    then show ?thesis by blast
  next
    case (Some l)
    with ok obtain r f p where i: "right (h ! a) = Some r"
      "split_feature (h ! a) = Some f" "split_point (h ! a) = Some p"
      "f < m" "int (dep a) \<le> md" "child_ok dep h a l" "child_ok dep h a r"
      by (auto simp: node_ok_def)
    show ?thesis
    proof (cases "f < length row")
      case False
      have "tree_predict_loop h row a k = Some (Inl IndexError)"
        by (subst tree_predict_loop.simps) (simp add: Some i False)
      with False i(4) show ?thesis by simp
    next
      case f: True
      define c where "c = (if row ! f < p then l else r)"
      have c: "child_ok dep h a c" using i(6,7) by (simp add: c_def)
      then have lt: "c < length h" "a < c" and dc: "dep c = Suc (dep a)"
        by (simp_all add: child_ok_def)
      have step: "tree_predict_loop h row a k = tree_predict_loop h row c (Suc k)"
        by (subst tree_predict_loop.simps) (simp add: Some i f c_def)
      have wstep: "walk h row a k b d'" if "walk h row c (Suc k) b d'" for b d'
      proof (cases "row ! f < p")
        case True
        with that have "walk h row l (Suc k) b d'" by (simp add: c_def)
        with walk.go_left [OF Some i(1,2,3) f True] show ?thesis .
      next
        case False
        with that have "walk h row r (Suc k) b d'" by (simp add: c_def)
        with walk.go_right [OF Some i(1,2,3) f False] show ?thesis .
      qed
      from lt less.prems have "length h - c < length h - a" by simp
      from less.hyps [OF this lt(1), of "Suc k"]
      show ?thesis
      proof
        assume "\<exists>b. arrives md dep h row c (Suc k) b"
        then obtain b where
          b: "tree_predict_loop h row c (Suc k)
                = Some (Inr (Suc k + (dep b - dep c), size_n (h ! b)))"
          "walk h row c (Suc k) b (Suc k + (dep b - dep c))" "b < length h"
          "left (h ! b) = None" "right (h ! b) = None" "dep c \<le> dep b"
          "b = c \<or> int (dep b) \<le> md + 1"
          unfolding arrives_def by blast
        from b(6) dc have e: "Suc k + (dep b - dep c) = k + (dep b - dep a)" by simp
        from b(7) dc i(5) b(6) have bd: "int (dep b) \<le> md + 1" by auto
        from b(6) dc have "dep a \<le> dep b" by simp
        with b step wstep [OF b(2)] e bd have "arrives md dep h row a k b"
          by (simp add: arrives_def)
        then show ?thesis by blast
      next
        assume "tree_predict_loop h row c (Suc k) = Some (Inl IndexError) \<and> \<not> m \<le> length row"
        with step show ?thesis by simp
      qed
    qed
  qed
qed

text \<open>What a query of a well-formed tree returns.\<close>

lemma tree_predict_ok:
  assumes "tree_ok m md t"
  shows "(\<exists>b d. tree_predict t row = Some (Inr (d, size_n (nodes t ! b))) \<and>
            walk (nodes t) row (root_n t) 0 b d \<and> b < length (nodes t) \<and>
            left (nodes t ! b) = None \<and> right (nodes t ! b) = None \<and> int d \<le> md + 1) \<or>
         (tree_predict t row = Some (Inl IndexError) \<and> \<not> m \<le> length row)"
proof -
  from assms obtain dep que where inv: "heap_inv m md (root_n t) dep (nodes t) que"
    and md: "0 \<le> md" by (auto simp: tree_ok_def)
  then have rt: "root_n t < length (nodes t)" "dep (root_n t) = 0"
    by (simp_all add: heap_inv_def)
  from query_walk [OF inv rt(1), of row 0] show ?thesis
  proof
    assume "\<exists>b. arrives md dep (nodes t) row (root_n t) 0 b"
    then obtain b where b: "arrives md dep (nodes t) row (root_n t) 0 b" ..
    then have "int (dep b) \<le> md + 1" using md rt(2) by (auto simp: arrives_def)
    with b rt(2) show ?thesis unfolding arrives_def tree_predict_def
      by (intro disjI1 exI [of _ b] exI [of _ "dep b"]) simp
  next
    assume "tree_predict_loop (nodes t) row (root_n t) 0 = Some (Inl IndexError) \<and>
            \<not> m \<le> length row"
    then show ?thesis by (simp add: tree_predict_def)
  qed
qed

lemma tree_ok_children:
  assumes "tree_ok m md t" and "a < length (nodes t)"
    and "left (nodes t ! a) = Some l" and "right (nodes t ! a) = Some r"
  shows "1 \<le> size_n (nodes t ! l) \<and> 1 \<le> size_n (nodes t ! r)"
proof -
  from assms(1) obtain dep que where inv: "heap_inv m md (root_n t) dep (nodes t) que"
    by (auto simp: tree_ok_def)
  with assms(2) have "node_ok m md dep (nodes t) a" by (simp add: heap_inv_def)
  with assms(3,4) show ?thesis by (auto simp: node_ok_def child_ok_def)
qed


section \<open>A worked example\<close>

definition example_rng :: rng where
  "example_rng = \<lparr>samples = sconst [0, 1], choices = sconst 0, randoms = sconst 0\<rparr>"

definition example_tree :: IsolationTree where
  "example_tree =
     \<lparr>height = 0, root_n = 0,
      nodes = [\<lparr>size_n = 2, split_feature = Some 0, split_point = Some 1,
                 left = Some 1, right = Some 2\<rparr>,
               Node 1, Node 1]\<rparr>"

lemma example_rng_ok: "rng_ok 1 example_rng"
  by (simp add: rng_ok_def example_rng_def)

lemma example_init:
  "IsolationTree_init [[0], [1]] 2 0 example_rng = Inr (example_tree, example_rng)"
  by (simp add: IsolationTree_init_def build_tree_def sample_def build_loop.simps
        loop_body_def choice_def get_split_def cell_def example_rng_def example_tree_def
        random_def Let_def Node_def)

lemma example_init_clamped:
  "IsolationTree_init [[0], [1]] 100 0 example_rng = Inr (example_tree, example_rng)"
  by (simp add: IsolationTree_init_def build_tree_def sample_def build_loop.simps
        loop_body_def choice_def get_split_def cell_def example_rng_def example_tree_def
        random_def Let_def Node_def)

lemma example_query: "tree_predict example_tree [0] = Some (Inr (1, 1))"
  by (simp add: tree_predict_def example_tree_def tree_predict_loop.simps Node_def)

section \<open>Split-point selection\<close>

text \<open>
  C3 (as amended). Under exact real arithmetic (the values of the dataset, the draw and
  the expression \<open>r * (upper - lower) + lower\<close> read as reals, with no rounding and no
  overflow), for a non-empty index set whose rows all have the chosen column, and a draw
  \<open>r\<close> in \<open>[0, 1)\<close>: split-point selection returns "no split" when the indexed rows have
  exactly one distinct value in the column; otherwise it returns
  \<open>r * (upper - lower) + lower\<close>, where \<open>lower\<close> and \<open>upper\<close> are the least and greatest
  of the distinct values without their minimum. The result lies in the closed interval
  \<open>[lower, upper]\<close>, is strictly below \<open>upper\<close> when \<open>lower < upper\<close>, and is strictly
  above the minimum of the indexed values. In Python's float arithmetic the strict
  bounds can fail (the result can round to \<open>upper\<close> or down to the minimum, or overflow):
  nothing is stated about that here.
\<close>

theorem get_split_interval:
  assumes "rows_ok X f idx" and "idx \<noteq> []"
    and "random g = (r, g')" and "0 \<le> r" and "r < 1"
  shows
    "(card (distinct_values X idx f) = 1 \<longrightarrow> get_split X idx f g = Inr (None, g)) \<and>
     (card (distinct_values X idx f) \<noteq> 1 \<longrightarrow>
        (let lower = Min (remaining_values X idx f);
             upper = Max (remaining_values X idx f);
             sp = r * (upper - lower) + lower
         in get_split X idx f g = Inr (Some sp, g') \<and>
            lower \<le> sp \<and> sp \<le> upper \<and> (lower < upper \<longrightarrow> sp < upper) \<and>
            Min (distinct_values X idx f) < sp))"
proof -
  let ?U = "distinct_values X idx f"
  have fin: "finite ?U" and ne: "?U \<noteq> {}"
    using assms(2) by (simp_all add: distinct_values_def)
  from assms(3) have r: "r = shd (randoms g)" and g': "g' = g\<lparr>randoms := stl (randoms g)\<rparr>"
    by (simp_all add: random_def)
  have one: "card ?U = 1 \<longrightarrow> get_split X idx f g = Inr (None, g)"
    using assms(1) by (simp add: get_split_eq)
  have many: "let lower = Min (remaining_values X idx f);
                  upper = Max (remaining_values X idx f);
                  sp = r * (upper - lower) + lower
              in get_split X idx f g = Inr (Some sp, g') \<and>
                 lower \<le> sp \<and> sp \<le> upper \<and> (lower < upper \<longrightarrow> sp < upper) \<and>
                 Min ?U < sp"
    if c: "card ?U \<noteq> 1"
  proof -
    note b = split_point_bounds [OF fin ne c assms(4,5)]
    have "get_split X idx f g =
            Inr (Some (r * (Max (remaining_values X idx f) - Min (remaining_values X idx f))
                       + Min (remaining_values X idx f)), g')"
      using assms(1,2) c by (simp add: get_split_eq r g')
    with b(4,5,6,7) show ?thesis
      unfolding Let_def remaining_values_def by blast
  qed
  from one many show ?thesis by blast
qed

theorem get_split_interval_witness:
  "rows_ok [[0], [1], [3]] 0 [0, 1, 2] \<and> random example_rng = (0, example_rng) \<and>
   get_split [[0], [1], [3]] [0, 1, 2] 0 example_rng = Inr (Some 1, example_rng) \<and>
   rows_ok [[5], [5]] 0 [0, 1] \<and> get_split [[5], [5]] [0, 1] 0 example_rng = Inr (None, example_rng)"
proof -
  have a: "rows_ok [[0], [1], [3]] 0 [0, 1, 2]" and b: "rows_ok [[5], [5]] 0 [0, 1]"
    by (simp_all add: rows_ok_def)
  have r: "random example_rng = (0, example_rng)"
    by (simp add: random_def example_rng_def)
  have c: "card (distinct_values [[0], [1], [3]] [0, 1, 2] 0) \<noteq> 1"
    "card (distinct_values [[5], [5]] [0, 1] 0) = 1"
    "remaining_values [[0], [1], [3]] [0, 1, 2] 0 = {1, 3}"
    by (auto simp add: distinct_values_def remaining_values_def)
  from get_split_interval [OF a _ r] get_split_interval [OF b _ r] a b r c
  show ?thesis by (simp add: Let_def)
qed

text \<open>
  With exactly two distinct values only one remains, \<open>lower = upper\<close>, and the split point
  is that value: it is not in the half-open interval \<open>[lower, upper)\<close>, which is empty.
  At this input (values \<open>0\<close> and \<open>1\<close>, draw \<open>0\<close>) float arithmetic is exact as well.
\<close>

theorem get_split_interval_counterexample:
  "get_split [[0], [1]] [0, 1] 0 example_rng = Inr (Some 1, example_rng) \<and>
   remaining_values [[0], [1]] [0, 1] 0 = {1} \<and>
   \<not> (Min (remaining_values [[0], [1]] [0, 1] 0) \<le> 1 \<and>
      (1::real) < Max (remaining_values [[0], [1]] [0, 1] 0))"
proof -
  have "remaining_values [[0], [1]] [0, 1] 0 = {1}"
    by (auto simp add: distinct_values_def remaining_values_def)
  moreover have "get_split [[0], [1]] [0, 1] 0 example_rng = Inr (Some 1, example_rng)"
    by (simp add: get_split_def cell_def example_rng_def random_def Let_def)
  ultimately show ?thesis by simp
qed

section \<open>Tree query\<close>

text \<open>
  C4. For a tree built by \<^verbatim>\<open>IsolationTree(X, n_samples, max_depth)\<close> and a row with at
  least as many columns as the rows of \<open>X\<close>, the query returns \<open>(d, size)\<close> where a descent
  from the root with the counter at \<open>0\<close> (left iff the row's value at the split feature is
  strictly below the split point, one more per edge) arrives with the counter at \<open>d\<close> at a
  node without children, whose size is \<open>size\<close>. The query is a function of the tree and
  the row and returns no store: the tree is as it was.
\<close>

theorem tree_predict_descends:
  assumes "IsolationTree_init X n_samples max_depth g = Inr (t, g')"
    and "rng_ok (length (hd X)) g" and "length (hd X) \<le> length row"
  shows "\<exists>leaf d. tree_predict t row = Some (Inr (d, size_n (nodes t ! leaf))) \<and>
           walk (nodes t) row (root_n t) 0 leaf d \<and>
           left (nodes t ! leaf) = None \<and> right (nodes t ! leaf) = None"
  using tree_predict_ok [OF IsolationTree_init_ok(1) [OF assms(1,2)], of row] assms(3)
  by blast

theorem tree_predict_descends_witness:
  "IsolationTree_init [[0], [1]] 2 0 example_rng = Inr (example_tree, example_rng) \<and>
   rng_ok (length (hd [[0], [1::real]])) example_rng \<and>
   (\<exists>leaf d. tree_predict example_tree [0] = Some (Inr (d, size_n (nodes example_tree ! leaf))) \<and>
      walk (nodes example_tree) [0] (root_n example_tree) 0 leaf d \<and>
      left (nodes example_tree ! leaf) = None \<and> right (nodes example_tree ! leaf) = None)"
proof -
  have ok: "rng_ok (length (hd [[0], [1::real]])) example_rng"
    using example_rng_ok by simp
  from tree_predict_descends [OF example_init ok, of "[0]"] example_init ok
  show ?thesis by simp
qed

text \<open>
  C10. For a tree built with maximum depth \<open>max_depth\<close>, the depth a query returns is at
  most \<open>max_depth + 1\<close>; and a query with a row that has at least as many columns as the
  rows of \<open>X\<close> does return. (A tree is only ever built with \<open>max_depth \<ge> 0\<close>: with a
  negative one the constructor raises.)
\<close>

theorem tree_predict_depth_bound:
  assumes "IsolationTree_init X n_samples max_depth g = Inr (t, g')"
    and "rng_ok (length (hd X)) g"
  shows "0 \<le> max_depth \<and>
         (length (hd X) \<le> length row \<longrightarrow> (\<exists>d s. tree_predict t row = Some (Inr (d, s)))) \<and>
         (\<forall>d s. tree_predict t row = Some (Inr (d, s)) \<longrightarrow> int d \<le> max_depth + 1)"
proof -
  have ok: "tree_ok (length (hd X)) max_depth t"
    by (rule IsolationTree_init_ok(1) [OF assms])
  then have "0 \<le> max_depth" by (simp add: tree_ok_def)
  with tree_predict_ok [OF ok, of row] show ?thesis by auto
qed

theorem tree_predict_depth_bound_witness:
  "IsolationTree_init [[0], [1]] 2 0 example_rng = Inr (example_tree, example_rng) \<and>
   rng_ok (length (hd [[0], [1::real]])) example_rng \<and>
   length (hd [[0], [1::real]]) \<le> length [0::real] \<and>
   tree_predict example_tree [0] = Some (Inr (1, 1)) \<and> int 1 \<le> 0 + 1"
proof -
  have ok: "rng_ok (length (hd [[0], [1::real]])) example_rng"
    using example_rng_ok by simp
  from tree_predict_depth_bound [OF example_init ok, of "[0]"] example_init ok example_query
  show ?thesis by simp
qed

text \<open>
  C9. In a built tree, a node that was split has two children of size at least \<open>1\<close>: over
  the reals, and with the draw in \<open>[0, 1)\<close>, the rows with the least value of the column go
  left and those with the greatest go right.
\<close>

theorem split_children_nonempty:
  assumes "IsolationTree_init X n_samples max_depth g = Inr (t, g')"
    and "rng_ok (length (hd X)) g"
    and "a < length (nodes t)"
    and "left (nodes t ! a) = Some l" and "right (nodes t ! a) = Some r"
  shows "1 \<le> size_n (nodes t ! l) \<and> 1 \<le> size_n (nodes t ! r)"
  by (rule tree_ok_children [OF IsolationTree_init_ok(1) [OF assms(1,2)] assms(3,4,5)])

theorem split_children_nonempty_witness:
  "IsolationTree_init [[0], [1]] 2 0 example_rng = Inr (example_tree, example_rng) \<and>
   rng_ok (length (hd [[0], [1::real]])) example_rng \<and>
   0 < length (nodes example_tree) \<and>
   left (nodes example_tree ! 0) = Some 1 \<and> right (nodes example_tree ! 0) = Some 2 \<and>
   1 \<le> size_n (nodes example_tree ! 1) \<and> 1 \<le> size_n (nodes example_tree ! 2)"
proof -
  have ok: "rng_ok (length (hd [[0], [1::real]])) example_rng"
    using example_rng_ok by simp
  have n: "0 < length (nodes example_tree)"
    "left (nodes example_tree ! 0) = Some 1" "right (nodes example_tree ! 0) = Some 2"
    by (simp_all add: example_tree_def)
  from split_children_nonempty [OF example_init ok n] example_init ok n
  show ?thesis by simp
qed

section \<open>Scoring\<close>

text \<open>
  The score as the specification words it: \<open>adjusted\<close> is the depth plus the expected
  path length of the leaf size of the pair that the query of one tree returns,
  \<open>mean_score\<close> its average over the trees, \<open>score_spec\<close> the value
  \<open>2 ^ -(mean_score / adjustment)\<close>.
\<close>

definition query_pair :: "IsolationTree \<Rightarrow> real list \<Rightarrow> nat \<times> int" where
  "query_pair t row = (case tree_predict t row of Some (Inr p) \<Rightarrow> p | _ \<Rightarrow> (0, 0))"

definition adjusted :: "IsolationTree \<Rightarrow> real list \<Rightarrow> real" where
  "adjusted t row =
     (case query_pair t row of (depth, leaf_size) \<Rightarrow> real depth + get_adjustment leaf_size)"

definition mean_score :: "IsolationTree list \<Rightarrow> real list \<Rightarrow> real" where
  "mean_score ts row = sum_list (map (\<lambda>t. adjusted t row) ts) / real (length ts)"

definition score_spec :: "IsolationTree list \<Rightarrow> real \<Rightarrow> real list \<Rightarrow> real" where
  "score_spec ts adj row = 2 powr - (mean_score ts row / adj)"

definition returns :: "IsolationTree list \<Rightarrow> real list \<Rightarrow> bool" where
  "returns ts row \<longleftrightarrow> (\<forall>t \<in> set ts. \<exists>d s. tree_predict t row = Some (Inr (d, s)))"

lemma returns_Cons:
  "returns (t # ts) row \<longleftrightarrow> (\<exists>d s. tree_predict t row = Some (Inr (d, s))) \<and> returns ts row"
  by (simp add: returns_def)

lemma score_loop_eq:
  "returns ts row \<Longrightarrow>
   score_loop ts row acc = Some (Inr (acc + sum_list (map (\<lambda>t. adjusted t row) ts)))"
proof (induction ts arbitrary: acc)
  case Nil
  show ?case by simp
next
  case (Cons t ts)
  from Cons.prems obtain d s where q: "tree_predict t row = Some (Inr (d, s))"
    and r: "returns ts row" by (auto simp: returns_Cons)
  have "adjusted t row = real d + get_adjustment s"
    by (simp add: adjusted_def query_pair_def q)
  with Cons.IH [OF r] q show ?case by (simp add: add.assoc)
qed

lemma score_loop_returns:
  "score_loop ts row acc = Some (Inr s) \<Longrightarrow> returns ts row"
proof (induction ts arbitrary: acc)
  case Nil
  show ?case by (simp add: returns_def)
next
  case (Cons t ts)
  from Cons.prems obtain d k where q: "tree_predict t row = Some (Inr (d, k))"
    and r: "score_loop ts row (acc + (real d + get_adjustment k)) = Some (Inr s)"
    by (auto split: option.splits sum.splits)
  from Cons.IH [OF r] q show ?case by (simp add: returns_Cons)
qed

lemma forest_predict_eq:
  assumes "trees f = Some ts" and "adjustment f = Some adj" and "returns ts row"
  shows "forest_predict f row =
           (if ts = [] \<or> adj = 0 then Some (Inl ZeroDivisionError)
            else Some (Inr (score_spec ts adj row)))"
  using assms score_loop_eq [OF assms(3), of 0]
  by (simp add: forest_predict_def score_spec_def mean_score_def Let_def)

lemma forest_predict_Inr:
  assumes "trees f = Some ts" and "adjustment f = Some adj"
    and "forest_predict f row = Some (Inr y)"
  shows "y = score_spec ts adj row \<and> returns ts row \<and> ts \<noteq> [] \<and> adj \<noteq> 0"
proof -
  from assms obtain s where "score_loop ts row 0 = Some (Inr s)"
    by (auto simp: forest_predict_def split: option.splits sum.splits)
  then have r: "returns ts row" by (rule score_loop_returns)
  from assms(3) forest_predict_eq [OF assms(1,2) r] r show ?thesis
    by (auto split: if_splits)
qed

lemma predict_Inr:
  assumes "trees f = Some ts" and "adjustment f = Some adj"
  shows "predict f rows = Some (Inr ys) \<Longrightarrow>
         ys = map (score_spec ts adj) rows \<and> (\<forall>row \<in> set rows. returns ts row)"
proof (induction rows arbitrary: ys)
  case Nil
  then show ?case by simp
next
  case (Cons row rows)
  from Cons.prems obtain y ys' where y: "forest_predict f row = Some (Inr y)"
    and r: "predict f rows = Some (Inr ys')" and ys: "ys = y # ys'"
    by (auto split: option.splits sum.splits)
  from forest_predict_Inr [OF assms y] Cons.IH [OF r] ys show ?case by simp
qed

lemma predict_eq:
  assumes "trees f = Some ts" and "adjustment f = Some adj" and "ts \<noteq> []" and "adj \<noteq> 0"
  shows "\<forall>row \<in> set rows. returns ts row \<Longrightarrow>
         predict f rows = Some (Inr (map (score_spec ts adj) rows))"
proof (induction rows)
  case Nil
  show ?case by simp
next
  case (Cons row rows)
  then have "returns ts row" and r: "\<forall>row \<in> set rows. returns ts row" by simp_all
  from forest_predict_eq [OF assms(1,2) this(1)] assms(3,4) Cons.IH [OF r]
  show ?case by simp
qed

text \<open>
  C1. For a forest whose trees and adjustment are set: whenever \<^verbatim>\<open>predict\<close> returns,
  it returns for each row, in the order of the rows, the value \<open>2 ^ -(mean_score /
  adjustment)\<close> of that row, every tree having returned its pair for every row; and it
  does return when there is at least one tree, the adjustment is not zero and every tree
  returns a pair for every row.
\<close>

theorem predict_scores:
  assumes "trees f = Some ts" and "adjustment f = Some adj"
  shows "(\<forall>ys. predict f rows = Some (Inr ys) \<longrightarrow>
            ys = map (score_spec ts adj) rows \<and> (\<forall>row \<in> set rows. returns ts row)) \<and>
         (ts \<noteq> [] \<and> adj \<noteq> 0 \<and> (\<forall>row \<in> set rows. returns ts row) \<longrightarrow>
            predict f rows = Some (Inr (map (score_spec ts adj) rows)))"
  using predict_Inr [OF assms] predict_eq [OF assms] by blast

definition example_forest :: IsolationForest where
  "example_forest = \<lparr>trees = Some [example_tree], adjustment = Some 1\<rparr>"


lemma example_query': "tree_predict example_tree [1] = Some (Inr (1, 1))"
  by (simp add: tree_predict_def example_tree_def tree_predict_loop.simps Node_def)

lemma example_returns: "\<forall>row \<in> set [[0], [1]]. returns [example_tree] row"
  by (simp add: returns_def example_query example_query')

lemma example_predict: "predict example_forest [[0], [1]] = Some (Inr [1 / 2, 1 / 2])"
proof -
  have q: "tree_predict example_tree [0] = Some (Inr (1, 1))"
    "tree_predict example_tree [1] = Some (Inr (1, 1))"
    by (rule example_query, rule example_query')
  have h: "(2::real) powr - 1 = 1 / 2" by (simp add: powr_minus inverse_eq_divide)
  have "forest_predict example_forest [0] = Some (Inr (1 / 2))"
    "forest_predict example_forest [1] = Some (Inr (1 / 2))"
    by (simp_all add: forest_predict_def example_forest_def q get_adjustment_def h)
  then show ?thesis by simp
qed

theorem predict_scores_witness:
  "trees example_forest = Some [example_tree] \<and> adjustment example_forest = Some 1 \<and>
   returns [example_tree] [0] \<and> returns [example_tree] [1] \<and>
   predict example_forest [[0], [1]] = Some (Inr (map (score_spec [example_tree] 1) [[0], [1]])) \<and>
   map (score_spec [example_tree] 1) [[0], [1]] = [1 / 2, 1 / 2]"
proof -
  have t: "trees example_forest = Some [example_tree]"
    and a: "adjustment example_forest = Some 1"
    by (simp_all add: example_forest_def)
  have r: "returns [example_tree] [0]" "returns [example_tree] [1]"
    using example_returns by simp_all
  from predict_scores [OF t a, of "[[0], [1]]", THEN conjunct1, THEN spec, THEN mp,
      OF example_predict]
  have s: "[1 / 2, 1 / 2] = map (score_spec [example_tree] 1) [[0], [1]]" by (rule conjunct1)
  have c: "[example_tree] \<noteq> [] \<and> (1::real) \<noteq> 0 \<and>
           (\<forall>row \<in> set [[0], [1]]. returns [example_tree] row)"
    using example_returns by simp
  from predict_scores [OF t a, of "[[0], [1]]", THEN conjunct2, THEN mp, OF c]
  have "predict example_forest [[0], [1]]
          = Some (Inr (map (score_spec [example_tree] 1) [[0], [1]]))" .
  with r t a s [symmetric] show ?thesis by (intro conjI) assumption+
qed

section \<open>fit\<close>











section \<open>Input validation\<close>

text \<open>
  C6 (as amended). \<^verbatim>\<open>fit\<close> on an empty dataset, asked for at least one tree, raises
  IndexError while it builds the first tree: the forest's trees stay as they were, and
  its adjustment has already been assigned.
\<close>

theorem fit_empty_dataset:
  assumes "1 \<le> n_trees"
  shows "fit self [] n_samples max_depth n_trees g =
           (Inl IndexError, self\<lparr>adjustment := Some (get_adjustment n_samples)\<rparr>)"
proof -
  from assms obtain k where k: "nat n_trees = Suc k" by (cases "nat n_trees") auto
  show ?thesis
    by (simp add: fit_def k IsolationTree_init_def build_tree_def Let_def)
qed

theorem fit_empty_dataset_witness:
  "(1::int) \<le> 1 \<and>
   fit IsolationForest_init [] 100 10 1 example_rng =
     (Inl IndexError, \<lparr>trees = None, adjustment = Some (get_adjustment 100)\<rparr>)"
  using fit_empty_dataset [of 1 IsolationForest_init 100 10 example_rng]
  by (simp add: IsolationForest_init_def)

text \<open>
  Rows of different lengths are not checked: here \<^verbatim>\<open>fit\<close> succeeds on them. Nor
  is an empty dataset an error when no tree is asked for.
\<close>

theorem fit_empty_dataset_counterexample:
  "fst (fit IsolationForest_init [[1], [2, 3]] 2 0 1 example_rng) = Inr example_rng \<and>
   fst (fit IsolationForest_init [] 2 0 0 example_rng) = Inr example_rng"
  by (simp add: fit_def IsolationTree_init_def build_tree_def sample_def build_loop.simps
        loop_body_def choice_def get_split_def cell_def example_rng_def random_def Let_def
        Node_def)


section \<open>The adjustment of a clamped subsample\<close>

lemma fit_adjustment:
  "adjustment (snd (fit self X n_samples max_depth n_trees g)) = Some (get_adjustment n_samples)"
  by (simp add: fit_def Let_def split: sum.splits)

text \<open>
  C7. With two rows and a subsample size of \<open>100\<close>, \<^verbatim>\<open>fit\<close> succeeds and the tree is
  built over both rows (its root has size \<open>2\<close>), but the stored adjustment is that of
  \<open>100\<close>, not that of the clamped size \<open>2\<close>.
\<close>

theorem fit_adjustment_unclamped:
  "fit IsolationForest_init [[0], [1]] 100 0 1 example_rng =
     (Inr example_rng, \<lparr>trees = Some [example_tree], adjustment = Some (get_adjustment 100)\<rparr>) \<and>
   size_n (nodes example_tree ! root_n example_tree) = 2 \<and>
   get_adjustment 2 < get_adjustment 100"
proof -
  have "get_adjustment 3 \<le> get_adjustment 100" by (intro adj_mono) simp_all
  moreover have "get_adjustment 2 < get_adjustment 3"
    using ln2_lower by (simp add: get_adjustment_def Let_def)
  ultimately have "get_adjustment 2 < get_adjustment 100" by simp
  moreover have "fit IsolationForest_init [[0], [1]] 100 0 1 example_rng =
     (Inr example_rng, \<lparr>trees = Some [example_tree], adjustment = Some (get_adjustment 100)\<rparr>)"
    by (simp add: fit_def example_init_clamped IsolationForest_init_def)
  moreover have "size_n (nodes example_tree ! root_n example_tree) = 2"
    by (simp add: example_tree_def)
  ultimately show ?thesis by simp
qed



end
